theory Spec2Isabelle
  imports Main
begin

section \<open>The capability registry of the preload bridge (src/_preload.js)\<close>

text \<open>
  The registry is the JavaScript object literal \<^verbatim>\<open>ALLOWED_CHANNELS\<close>: seventeen own
  properties, each holding the boolean \<^verbatim>\<open>true\<close>. A property read \<^verbatim>\<open>obj[key]\<close> on an
  object literal first looks at the own properties and then at \<^verbatim>\<open>Object.prototype\<close>, whose
  members are functions (and the accessor \<^verbatim>\<open>__proto__\<close>, which yields the prototype object);
  a key found in neither reads as \<^verbatim>\<open>undefined\<close>. Only the kinds of value that can come out
  of such a read are modelled.
\<close>

datatype jsval = JSUndefined | JSBoolean bool | JSFunction | JSObject

type_synonym jsobject = "(string \<times> jsval) list"

definition ALLOWED_CHANNELS :: jsobject where
  "ALLOWED_CHANNELS =
    [(''terminal:execute'', JSBoolean True),
     (''terminal:resize'', JSBoolean True),
     (''terminal:kill'', JSBoolean True),
     (''terminal:data'', JSBoolean True),
     (''terminal:exit'', JSBoolean True),
     (''file:read'', JSBoolean True),
     (''file:write'', JSBoolean True),
     (''file:delete'', JSBoolean True),
     (''file:list'', JSBoolean True),
     (''file:stats'', JSBoolean True),
     (''system:info'', JSBoolean True),
     (''system:cwd'', JSBoolean True),
     (''system:env'', JSBoolean True),
     (''websocket:connect'', JSBoolean True),
     (''websocket:disconnect'', JSBoolean True),
     (''websocket:send'', JSBoolean True),
     (''websocket:message'', JSBoolean True)]"

text \<open>The members every object literal inherits (the ECMAScript \<^verbatim>\<open>Object.prototype\<close>).\<close>

definition Object_prototype :: jsobject where
  "Object_prototype =
    [(''constructor'', JSFunction),
     (''hasOwnProperty'', JSFunction),
     (''isPrototypeOf'', JSFunction),
     (''propertyIsEnumerable'', JSFunction),
     (''toLocaleString'', JSFunction),
     (''toString'', JSFunction),
     (''valueOf'', JSFunction),
     (''__defineGetter__'', JSFunction),
     (''__defineSetter__'', JSFunction),
     (''__lookupGetter__'', JSFunction),
     (''__lookupSetter__'', JSFunction),
     (''__proto__'', JSObject)]"

text \<open>\<^verbatim>\<open>obj[key]\<close>: own property first, then the prototype, else \<^verbatim>\<open>undefined\<close>.\<close>

definition js_get :: "jsobject \<Rightarrow> string \<Rightarrow> jsval" where
  "js_get obj key =
     (case map_of obj key of
        Some v \<Rightarrow> v
      | None \<Rightarrow> (case map_of Object_prototype key of Some v \<Rightarrow> v | None \<Rightarrow> JSUndefined))"

text \<open>JavaScript truthiness of the values above (what a test without \<^verbatim>\<open>=== true\<close> would see).\<close>

fun truthy :: "jsval \<Rightarrow> bool" where
  "truthy JSUndefined = False"
| "truthy (JSBoolean b) = b"
| "truthy JSFunction = True"
| "truthy JSObject = True"

text \<open>
  \<^verbatim>\<open>function isChannelAllowed(channel) { return ALLOWED_CHANNELS[channel] === true; }\<close>
  The object read is the first argument, so that the bridge state below can carry it.
\<close>

definition isChannelAllowed :: "jsobject \<Rightarrow> string \<Rightarrow> bool" where
  "isChannelAllowed reg channel = (js_get reg channel = JSBoolean True)"

definition channel_names :: "string list" where
  "channel_names =
    [''terminal:execute'', ''terminal:resize'', ''terminal:kill'', ''terminal:data'',
     ''terminal:exit'',
     ''file:read'', ''file:write'', ''file:delete'', ''file:list'', ''file:stats'',
     ''system:info'', ''system:cwd'', ''system:env'',
     ''websocket:connect'', ''websocket:disconnect'', ''websocket:send'',
     ''websocket:message'']"


section \<open>The gatekeeper bridge (src/_preload.js, secureAPI)\<close>

text \<open>
  The bridge is stateful JavaScript. Its state is made explicit: the registry object, the
  calls made on \<^verbatim>\<open>ipcRenderer\<close> (everything that crosses to the main process), the
  \<^verbatim>\<open>console.error\<close> lines, the listeners \<^verbatim>\<open>ipcRenderer\<close> holds, a counter that gives every
  closure created by the bridge its identity, and the invocations of renderer callbacks.
  Payload values are opaque to the bridge (type \<open>'a\<close>); a renderer callback is known by a
  number.
\<close>

datatype js_error = Error string

datatype 'a ipc_call =
    Ipc_send string "'a list"
  | Ipc_invoke string "'a list"
  | Ipc_sendSync string
  | Ipc_on string nat
  | Ipc_once string nat
  | Ipc_removeListener string nat

fun call_channel :: "'a ipc_call \<Rightarrow> string" where
  "call_channel (Ipc_send c a) = c"
| "call_channel (Ipc_invoke c a) = c"
| "call_channel (Ipc_sendSync c) = c"
| "call_channel (Ipc_on c w) = c"
| "call_channel (Ipc_once c w) = c"
| "call_channel (Ipc_removeListener c w) = c"

text \<open>
  The calls the four checked operations make: \<^verbatim>\<open>send\<close>, \<^verbatim>\<open>invoke\<close>, \<^verbatim>\<open>on\<close>, \<^verbatim>\<open>once\<close>.
\<close>

fun bridged_call :: "'a ipc_call \<Rightarrow> bool" where
  "bridged_call (Ipc_send c a) = True"
| "bridged_call (Ipc_invoke c a) = True"
| "bridged_call (Ipc_on c w) = True"
| "bridged_call (Ipc_once c w) = True"
| "bridged_call (Ipc_sendSync c) = False"
| "bridged_call (Ipc_removeListener c w) = False"

record listener =
  l_fn :: nat
  l_channel :: string
  l_callback :: nat
  l_once :: bool

record 'a bridge =
  registry :: jsobject
  ipc_calls :: "'a ipc_call list"
  console_errors :: "string list"
  listeners :: "listener list"
  next_fn :: nat
  invoked :: "(nat \<times> nat \<times> 'a list) list"

text \<open>
  What a bridge function hands back: nothing, the unsubscribe closure of \<^verbatim>\<open>on\<close> (known by
  the channel and the wrapped callback it captured), a settled promise, or a plain value.
\<close>

datatype 'a ret =
    Ret_undefined
  | Ret_unsubscribe string nat
  | Ret_promise "js_error + 'a"
  | Ret_value 'a

fun is_handle :: "'a ret \<Rightarrow> bool" where
  "is_handle (Ret_unsubscribe c w) = True"
| "is_handle r = False"

definition bridge_init :: "'a bridge" where
  "bridge_init =
     \<lparr>registry = ALLOWED_CHANNELS, ipc_calls = [], console_errors = [], listeners = [],
      next_fn = 0, invoked = []\<rparr>"

text \<open>\<^verbatim>\<open>new Error(`Channel '${channel}' is not allowed`)\<close>\<close>

definition not_allowed :: "string \<Rightarrow> js_error" where
  "not_allowed channel =
     Error (''Channel '' @ [CHR 0x27] @ channel @ [CHR 0x27] @ '' is not allowed'')"

definition console_error :: "string \<Rightarrow> 'a bridge \<Rightarrow> 'a bridge" where
  "console_error line s = s\<lparr>console_errors := console_errors s @ [line]\<rparr>"

definition ipc :: "'a ipc_call \<Rightarrow> 'a bridge \<Rightarrow> 'a bridge" where
  "ipc call s = s\<lparr>ipc_calls := ipc_calls s @ [call]\<rparr>"

definition send :: "string \<Rightarrow> 'a list \<Rightarrow> 'a bridge \<Rightarrow> (js_error + 'a ret) \<times> 'a bridge" where
  "send channel args s =
     (if \<not> isChannelAllowed (registry s) channel then
        (Inl (not_allowed channel),
         console_error
           (''[SECURITY] Blocked IPC send on non-whitelisted channel: '' @ channel) s)
      else (Inr Ret_undefined, ipc (Ipc_send channel args) s))"

text \<open>
  \<^verbatim>\<open>invoke\<close> is an \<^verbatim>\<open>async\<close> function: its \<^verbatim>\<open>throw\<close> comes out as a rejected promise. The
  reply of the main process is not decided by the bridge; it is the argument \<open>reply\<close>.
\<close>

definition invoke :: "string \<Rightarrow> 'a list \<Rightarrow> js_error + 'a \<Rightarrow> 'a bridge \<Rightarrow> (js_error + 'a ret) \<times> 'a bridge" where
  "invoke channel args reply s =
     (if \<not> isChannelAllowed (registry s) channel then
        (Inr (Ret_promise (Inl (not_allowed channel))),
         console_error
           (''[SECURITY] Blocked IPC invoke on non-whitelisted channel: '' @ channel) s)
      else (Inr (Ret_promise reply), ipc (Ipc_invoke channel args) s))"

text \<open>
  \<^verbatim>\<open>on\<close> creates the closure \<^verbatim>\<open>wrappedCallback\<close> (identity \<open>next_fn s\<close>), registers it with
  \<^verbatim>\<open>ipcRenderer.on\<close> and returns a closure that captured the channel and the wrapper.
\<close>

definition on :: "string \<Rightarrow> nat \<Rightarrow> 'a bridge \<Rightarrow> (js_error + 'a ret) \<times> 'a bridge" where
  "on channel callback s =
     (if \<not> isChannelAllowed (registry s) channel then
        (Inl (not_allowed channel),
         console_error
           (''[SECURITY] Blocked IPC listener on non-whitelisted channel: '' @ channel) s)
      else
        (let wrappedCallback = next_fn s in
         (Inr (Ret_unsubscribe channel wrappedCallback),
          ipc (Ipc_on channel wrappedCallback)
            (s\<lparr>next_fn := Suc wrappedCallback,
               listeners := listeners s @
                 [\<lparr>l_fn = wrappedCallback, l_channel = channel, l_callback = callback,
                   l_once = False\<rparr>]\<rparr>))))"

text \<open>
  \<^verbatim>\<open>once\<close> registers a fresh arrow function with \<^verbatim>\<open>ipcRenderer.once\<close>; the function body has
  no \<^verbatim>\<open>return\<close>, so the call yields \<^verbatim>\<open>undefined\<close>.
\<close>

definition once :: "string \<Rightarrow> nat \<Rightarrow> 'a bridge \<Rightarrow> (js_error + 'a ret) \<times> 'a bridge" where
  "once channel callback s =
     (if \<not> isChannelAllowed (registry s) channel then
        (Inl (not_allowed channel),
         console_error
           (''[SECURITY] Blocked IPC once listener on non-whitelisted channel: '' @ channel) s)
      else
        (let fn = next_fn s in
         (Inr Ret_undefined,
          ipc (Ipc_once channel fn)
            (s\<lparr>next_fn := Suc fn,
               listeners := listeners s @
                 [\<lparr>l_fn = fn, l_channel = channel, l_callback = callback,
                   l_once = True\<rparr>]\<rparr>))))"

text \<open>
  \<^verbatim>\<open>ipcRenderer\<close> is a Node \<^verbatim>\<open>EventEmitter\<close>. \<^verbatim>\<open>removeListener(channel, fn)\<close> scans the
  listeners of that channel from the most recent one back and removes the first it finds
  that is \<open>fn\<close>; nothing happens when there is none.
\<close>

fun remove_first :: "('x \<Rightarrow> bool) \<Rightarrow> 'x list \<Rightarrow> 'x list" where
  "remove_first P [] = []"
| "remove_first P (x # xs) = (if P x then xs else x # remove_first P xs)"

definition removeListener :: "string \<Rightarrow> nat \<Rightarrow> listener list \<Rightarrow> listener list" where
  "removeListener channel fn ls =
     rev (remove_first (\<lambda>l. l_channel l = channel \<and> l_fn l = fn) (rev ls))"

text \<open>Calling the closure returned by \<^verbatim>\<open>on\<close>.\<close>

definition unsubscribe :: "string \<Rightarrow> nat \<Rightarrow> 'a bridge \<Rightarrow> 'a bridge" where
  "unsubscribe channel wrappedCallback s =
     ipc (Ipc_removeListener channel wrappedCallback)
       (s\<lparr>listeners := removeListener channel wrappedCallback (listeners s)\<rparr>)"

definition getVersion :: "'a \<Rightarrow> 'a bridge \<Rightarrow> (js_error + 'a ret) \<times> 'a bridge" where
  "getVersion reply s = (Inr (Ret_value reply), ipc (Ipc_sendSync ''app:get-version'') s)"

definition getCwd :: "js_error + 'a \<Rightarrow> 'a bridge \<Rightarrow> (js_error + 'a ret) \<times> 'a bridge" where
  "getCwd reply s = (Inr (Ret_promise reply), ipc (Ipc_invoke ''system:cwd'' []) s)"

definition getEnv :: "js_error + 'a \<Rightarrow> 'a bridge \<Rightarrow> (js_error + 'a ret) \<times> 'a bridge" where
  "getEnv reply s = (Inr (Ret_promise reply), ipc (Ipc_invoke ''system:env'' []) s)"

text \<open>
  A message from the main process on a channel (\<^verbatim>\<open>emit\<close>). The emitter copies the list of
  the channel's listeners and calls them in registration order, in a plain loop with no
  \<^verbatim>\<open>try\<close>: a listener registered with \<^verbatim>\<open>once\<close> takes itself out and then runs; every wrapper
  of the bridge drops the event object and calls its renderer callback with the arguments.
  When a callback throws, the exception leaves the loop and the listeners after it are
  neither called nor, if one-shot, taken out. Which callbacks throw on this message is not
  decided by the bridge; it is the argument \<open>throws\<close> (by wrapper). Renderer callbacks are
  taken not to call back into the bridge while the message is being delivered.
\<close>

definition call_listener :: "'a list \<Rightarrow> listener \<Rightarrow> 'a bridge \<Rightarrow> 'a bridge" where
  "call_listener args l s =
     s\<lparr>listeners :=
         (if l_once l then removeListener (l_channel l) (l_fn l) (listeners s)
          else listeners s),
       invoked := invoked s @ [(l_fn l, l_callback l, args)]\<rparr>"

fun deliver :: "'a list \<Rightarrow> (nat \<Rightarrow> bool) \<Rightarrow> listener list \<Rightarrow> 'a bridge \<Rightarrow> 'a bridge" where
  "deliver args throws [] s = s"
| "deliver args throws (l # ls) s =
     (if throws (l_fn l) then call_listener args l s
      else deliver args throws ls (call_listener args l s))"

definition emit :: "string \<Rightarrow> 'a list \<Rightarrow> (nat \<Rightarrow> bool) \<Rightarrow> 'a bridge \<Rightarrow> 'a bridge" where
  "emit channel args throws s =
     deliver args throws (filter (\<lambda>l. l_channel l = channel) (listeners s)) s"

text \<open>Everything that can happen to the bridge, and a run of such events.\<close>

datatype 'a bridge_op =
    Call_send string "'a list"
  | Call_invoke string "'a list" "js_error + 'a"
  | Call_on string nat
  | Call_once string nat
  | Call_unsubscribe string nat
  | Call_getVersion 'a
  | Call_getCwd "js_error + 'a"
  | Call_getEnv "js_error + 'a"
  | Main_emits string "'a list" "nat \<Rightarrow> bool"

fun step :: "'a bridge_op \<Rightarrow> 'a bridge \<Rightarrow> 'a bridge" where
  "step (Call_send c a) s = snd (send c a s)"
| "step (Call_invoke c a r) s = snd (invoke c a r s)"
| "step (Call_on c cb) s = snd (on c cb s)"
| "step (Call_once c cb) s = snd (once c cb s)"
| "step (Call_unsubscribe c w) s = unsubscribe c w s"
| "step (Call_getVersion r) s = snd (getVersion r s)"
| "step (Call_getCwd r) s = snd (getCwd r s)"
| "step (Call_getEnv r) s = snd (getEnv r s)"
| "step (Main_emits c a t) s = emit c a t s"

fun run :: "'a bridge_op list \<Rightarrow> 'a bridge \<Rightarrow> 'a bridge" where
  "run [] s = s"
| "run (x # xs) s = run xs (step x s)"

text \<open>How often the closure \<open>w\<close> has passed a message on to its renderer callback.\<close>

definition deliveries :: "nat \<Rightarrow> 'a bridge \<Rightarrow> nat" where
  "deliveries w s = length (filter (\<lambda>d. fst d = w) (invoked s))"

definition registered :: "nat \<Rightarrow> 'a bridge \<Rightarrow> bool" where
  "registered w s = (w \<in> l_fn ` set (listeners s))"

text \<open>
  Closure identities are handed out by the counter: those in use are pairwise different
  and below it.
\<close>

definition fresh_ids :: "'a bridge \<Rightarrow> bool" where
  "fresh_ids s =
     (distinct (map l_fn (listeners s)) \<and>
      list_all (\<lambda>l. l_fn l < next_fn s) (listeners s) \<and>
      list_all (\<lambda>d. fst d < next_fn s) (invoked s))"

text \<open>The closure \<open>w\<close> exists and, where it is registered, it is the listener \<open>L\<close>.\<close>

definition owned_by :: "nat \<Rightarrow> listener \<Rightarrow> 'a bridge \<Rightarrow> bool" where
  "owned_by w L s =
     (w < next_fn s \<and> list_all (\<lambda>l. l_fn l \<noteq> w \<or> l = L) (listeners s))"

text \<open>A closure that passes on at most one message, and none while it is still registered.\<close>

definition at_most_once :: "nat \<Rightarrow> 'a bridge \<Rightarrow> bool" where
  "at_most_once w s = (deliveries w s \<le> 1 \<and> (\<not> registered w s \<or> deliveries w s = 0))"

section \<open>The terminal session gateway (SECURITY_FIXES.md, Fix 1 and recommendation 3)\<close>

subsection \<open>Strings\<close>

text \<open>\<^verbatim>\<open>s.startsWith(p)\<close>\<close>

definition startsWith :: "string \<Rightarrow> string \<Rightarrow> bool" where
  "startsWith s p = (take (length p) s = p)"

text \<open>The decimal text a template literal gives for a port number.\<close>

text \<open>Only ever applied to a digit, \<open>d < 10\<close>.\<close>

definition digit_char :: "nat \<Rightarrow> char" where
  "digit_char d = ''0123456789'' ! d"

fun decimal :: "nat \<Rightarrow> string" where
  "decimal n = (if 10 \<le> n then decimal (n div 10) @ [digit_char (n mod 10)] else [digit_char n])"

declare decimal.simps [simp del]

subsection \<open>Handshake state of one connection\<close>

text \<open>
  The \<^verbatim>\<open>connection\<close> handler keeps a flag \<^verbatim>\<open>authenticated\<close>, a timer \<^verbatim>\<open>authTimeout\<close> of
  5000 ms and a one-shot \<^verbatim>\<open>message\<close> listener. The socket is known here by the
  \<^verbatim>\<open>ws.close(code, reason)\<close> calls made on it, oldest first; the clock counts milliseconds
  since the handler ran.
\<close>

record connection =
  authenticated :: bool
  clock :: nat
  timer_pending :: bool
  clearTimeout_calls :: nat
  once_message :: bool
  close_calls :: "(nat \<times> string) list"

datatype conn_state = AwaitingAuth | Active | Closed

definition conn_state :: "connection \<Rightarrow> conn_state" where
  "conn_state c =
     (if close_calls c \<noteq> [] then Closed
      else if authenticated c then Active
      else AwaitingAuth)"

definition connection_opened :: connection where
  "connection_opened =
     \<lparr>authenticated = False, clock = 0, timer_pending = True, clearTimeout_calls = 0,
      once_message = True, close_calls = []\<rparr>"

definition ws_close :: "nat \<Rightarrow> string \<Rightarrow> connection \<Rightarrow> connection" where
  "ws_close code reason c = c\<lparr>close_calls := close_calls c @ [(code, reason)]\<rparr>"

text \<open>The body of the \<^verbatim>\<open>setTimeout\<close> callback.\<close>

definition authTimeout :: "connection \<Rightarrow> connection" where
  "authTimeout c =
     (if \<not> authenticated c then ws_close 4401 ''Authentication timeout'' c else c)"

text \<open>Time passes by \<open>d\<close> ms; a pending timer whose 5000 ms are over fires.\<close>

definition elapse :: "nat \<Rightarrow> connection \<Rightarrow> connection" where
  "elapse d c =
     (if timer_pending c \<and> 5000 \<le> clock c + d
      then authTimeout (c\<lparr>clock := clock c + d, timer_pending := False\<rparr>)
      else c\<lparr>clock := clock c + d\<rparr>)"

text \<open>
  The value \<^verbatim>\<open>JSON.parse\<close> returns. Numbers are never looked at by the handler; integers
  stand for them. An object is the list of its properties, keys distinct.
\<close>

datatype json =
    JNull
  | JBool bool
  | JNumber int
  | JString string
  | JArray "json list"
  | JObject "(string \<times> json) list"

text \<open>
  \<^verbatim>\<open>data.authToken\<close>: a property read on \<^verbatim>\<open>null\<close> throws a TypeError; on an object it
  gives the property or \<^verbatim>\<open>undefined\<close> (\<open>None\<close>); a boolean, number, string or array
  has no such property.
\<close>

fun authToken :: "json \<Rightarrow> js_error + json option" where
  "authToken JNull = Inl (Error ''TypeError'')"
| "authToken (JObject props) = Inr (map_of props ''authToken'')"
| "authToken data = Inr None"

text \<open>
  The \<^verbatim>\<open>ws.once('message', ...)\<close> listener. Its argument is the outcome of
  \<^verbatim>\<open>JSON.parse(message)\<close>: \<open>None\<close> when it throws a SyntaxError. Both that exception and
  the TypeError of the property read land in the one \<^verbatim>\<open>catch\<close>. A second message no
  longer finds the listener.
\<close>

definition message :: "string \<Rightarrow> json option \<Rightarrow> connection \<Rightarrow> connection" where
  "message wsAuthToken parsed c =
     (if \<not> once_message c then c
      else
        (let c1 = c\<lparr>once_message := False\<rparr> in
         case parsed of
           None \<Rightarrow> ws_close 4400 ''Invalid message format'' c1
         | Some data \<Rightarrow>
             (case authToken data of
                Inl e \<Rightarrow> ws_close 4400 ''Invalid message format'' c1
              | Inr tok \<Rightarrow>
                  if tok = Some (JString wsAuthToken)
                  then c1\<lparr>authenticated := True, timer_pending := False,
                          clearTimeout_calls := Suc (clearTimeout_calls c1)\<rparr>
                  else ws_close 4403 ''Invalid auth token'' c1)))"

datatype conn_event = Elapse nat | Message "json option"

fun conn_step :: "string \<Rightarrow> conn_event \<Rightarrow> connection \<Rightarrow> connection" where
  "conn_step tok (Elapse d) c = elapse d c"
| "conn_step tok (Message m) c = message tok m c"

fun conn_run :: "string \<Rightarrow> conn_event list \<Rightarrow> connection \<Rightarrow> connection" where
  "conn_run tok [] c = c"
| "conn_run tok (e # es) c = conn_run tok es (conn_step tok e c)"

text \<open>The first message of a course of events, and whether it carries the token.\<close>

fun first_message :: "conn_event list \<Rightarrow> json option option" where
  "first_message [] = None"
| "first_message (Elapse d # es) = first_message es"
| "first_message (Message m # es) = Some m"

definition carries_token :: "string \<Rightarrow> json option \<Rightarrow> bool" where
  "carries_token tok parsed =
     (case parsed of None \<Rightarrow> False | Some data \<Rightarrow> authToken data = Inr (Some (JString tok)))"

definition token_presented :: "string \<Rightarrow> conn_event list \<Rightarrow> bool" where
  "token_presented tok es =
     (case first_message es of None \<Rightarrow> False | Some m \<Rightarrow> carries_token tok m)"

text \<open>
  What the handler keeps true of a connection: \<^verbatim>\<open>clearTimeout\<close> has been called once when
  the flag is set, and then neither the timer nor the listener is left; it has not been
  called while the flag is unset.
\<close>

definition handshake_inv :: "connection \<Rightarrow> bool" where
  "handshake_inv c =
     (if authenticated c
      then \<not> once_message c \<and> \<not> timer_pending c \<and> clearTimeout_calls c = 1
      else clearTimeout_calls c = 0)"

subsection \<open>The accept-time check\<close>

text \<open>
  What \<^verbatim>\<open>verifyClient\<close> reads of the upgrade request: \<^verbatim>\<open>info.origin\<close>,
  \<^verbatim>\<open>info.req.headers.origin\<close> and \<^verbatim>\<open>info.req.headers.host\<close>, each a string or
  \<^verbatim>\<open>undefined\<close> (\<open>None\<close>).
\<close>

record upgrade_info =
  info_origin :: "string option"
  header_origin :: "string option"
  header_host :: "string option"

text \<open>
  The server: \<^verbatim>\<open>this.wss.clients\<close>, the port and the shared token. With
  \<^verbatim>\<open>clientTracking\<close> the ws server keeps the connections it tracks in a \<^verbatim>\<open>Set\<close>
  (\<^verbatim>\<open>this.clients = new Set()\<close>; the document asks for ws 8.x); its members are listed here
  in the order they were added.
\<close>

record gateway =
  clients :: "connection list"
  port :: nat
  wsAuthToken :: string

text \<open>
  The property read \<^verbatim>\<open>.length\<close> on a \<^verbatim>\<open>Set\<close>: a \<^verbatim>\<open>Set\<close> has a \<^verbatim>\<open>size\<close> and no \<^verbatim>\<open>length\<close>,
  so the read gives \<^verbatim>\<open>undefined\<close> (\<open>None\<close>) whatever the members are.
\<close>

definition Set_length :: "'x list \<Rightarrow> nat option" where
  "Set_length members = None"

text \<open>
  \<^verbatim>\<open>v >= n\<close> for a number or \<^verbatim>\<open>undefined\<close> on the left: \<^verbatim>\<open>undefined\<close> converts to NaN and
  every comparison with NaN is false.
\<close>

definition js_ge :: "nat option \<Rightarrow> nat \<Rightarrow> bool" where
  "js_ge v n = (case v of None \<Rightarrow> False | Some m \<Rightarrow> n \<le> m)"

definition allowedOrigins :: "nat \<Rightarrow> string list" where
  "allowedOrigins p =
     [''http://localhost'',
      ''http://127.0.0.1'',
      ''https://localhost'',
      ''https://127.0.0.1'',
      ''http://localhost:'' @ decimal p,
      ''http://127.0.0.1:'' @ decimal p,
      ''https://localhost:'' @ decimal p,
      ''https://127.0.0.1:'' @ decimal p,
      ''file://'',
      ''app://'']"

text \<open>
  \<^verbatim>\<open>a || b\<close> and \<^verbatim>\<open>!v\<close> on strings that may be \<^verbatim>\<open>undefined\<close>: the empty string is falsy
  as \<^verbatim>\<open>undefined\<close> is.
\<close>

definition js_or :: "string option \<Rightarrow> string option \<Rightarrow> string option" where
  "js_or a b = (case a of None \<Rightarrow> b | Some x \<Rightarrow> if x = [] then b else Some x)"

text \<open>
  The result is the boolean \<^verbatim>\<open>verifyClient\<close> returns, with the lines it writes with
  \<^verbatim>\<open>console.warn\<close>.
\<close>

definition falsy :: "string option \<Rightarrow> bool" where
  "falsy v = (case v of None \<Rightarrow> True | Some x \<Rightarrow> x = [])"

text \<open>\<^verbatim>\<open>host && (host.startsWith('localhost') || host.startsWith('127.0.0.1'))\<close>\<close>

definition host_from_localhost :: "string option \<Rightarrow> bool" where
  "host_from_localhost h =
     (case h of
        None \<Rightarrow> False
      | Some host \<Rightarrow>
          host \<noteq> [] \<and> (startsWith host ''localhost'' \<or> startsWith host ''127.0.0.1''))"

definition verifyClient :: "gateway \<Rightarrow> upgrade_info \<Rightarrow> bool \<times> string list" where
  "verifyClient g info =
     (if js_ge (Set_length (clients g)) 1 then (False, [])
      else
        (case js_or (info_origin info) (header_origin info) of
           None \<Rightarrow> (host_from_localhost (header_host info), [])
         | Some origin \<Rightarrow>
             if falsy (Some origin) then (host_from_localhost (header_host info), [])
             else
               (let isAllowed =
                      list_ex (\<lambda>allowedOrigin. startsWith origin allowedOrigin)
                        (allowedOrigins (port g))
                in (isAllowed,
                    if \<not> isAllowed then
                      [''[eDEX-UI Security] Rejected WebSocket connection from unauthorized origin: ''
                         @ origin]
                    else []))))"

text \<open>An upgrade request reaches the server: an accepted one becomes a tracked client.\<close>

definition accept :: "upgrade_info \<Rightarrow> gateway \<Rightarrow> gateway" where
  "accept info g =
     (if fst (verifyClient g info) then g\<lparr>clients := clients g @ [connection_opened]\<rparr>
      else g)"

text \<open>
  The reading of the specification's words for the accept policy, to compare the code
  with: a loopback name is \<^verbatim>\<open>localhost\<close> or \<^verbatim>\<open>127.0.0.1\<close>; a host indicator names it alone
  or followed by a port; a loopback origin is the scheme \<^verbatim>\<open>http\<close> or \<^verbatim>\<open>https\<close>, a loopback
  name and nothing more, or the listener's port after a colon.
\<close>

definition spec_loopback_host :: "string \<Rightarrow> bool" where
  "spec_loopback_host host = (takeWhile (\<lambda>ch. ch \<noteq> CHR '':'') host \<in> {''localhost'', ''127.0.0.1''})"

definition spec_allowed_origin :: "nat \<Rightarrow> string \<Rightarrow> bool" where
  "spec_allowed_origin p origin =
     (origin \<in> {''http://localhost'', ''http://127.0.0.1'',
                 ''https://localhost'', ''https://127.0.0.1'',
                 ''http://localhost:'' @ decimal p,
                 ''http://127.0.0.1:'' @ decimal p,
                 ''https://localhost:'' @ decimal p,
                 ''https://127.0.0.1:'' @ decimal p} \<or>
      startsWith origin ''file://'' \<or> startsWith origin ''app://'')"

section \<open>Facts about the registry\<close>

lemma map_of_prototype_not_true:
  "map_of Object_prototype key \<noteq> Some (JSBoolean True)"
  by (simp add: Object_prototype_def)

lemma map_of_registry_cases:
  "map_of ALLOWED_CHANNELS key =
     (if key \<in> set channel_names then Some (JSBoolean True) else None)"
  by (simp add: ALLOWED_CHANNELS_def channel_names_def)

lemma isChannelAllowed_iff:
  "isChannelAllowed ALLOWED_CHANNELS channel = (channel \<in> set channel_names)"
proof (cases "channel \<in> set channel_names")
  case True
  then show ?thesis
    by (simp add: isChannelAllowed_def js_get_def map_of_registry_cases)
next
  case False
  then have own: "map_of ALLOWED_CHANNELS channel = None"
    by (simp add: map_of_registry_cases)
  show ?thesis
    using False map_of_prototype_not_true [of channel]
    by (auto simp add: isChannelAllowed_def js_get_def own split: option.splits)
qed

text \<open>
  C10: \<^verbatim>\<open>isChannelAllowed\<close> is true exactly for the seventeen names of
  \<^verbatim>\<open>ALLOWED_CHANNELS\<close> and false for every other string. The members inherited from
  \<^verbatim>\<open>Object.prototype\<close> read as truthy values (\<^verbatim>\<open>toString\<close>, \<^verbatim>\<open>constructor\<close>,
  \<^verbatim>\<open>hasOwnProperty\<close>), yet they are rejected, because the value must be the boolean
  \<^verbatim>\<open>true\<close>.
\<close>

theorem isChannelAllowed_exactly_seventeen:
  "isChannelAllowed ALLOWED_CHANNELS channel = (channel \<in> set channel_names)
   \<and> length channel_names = 17 \<and> distinct channel_names
   \<and> map fst ALLOWED_CHANNELS = channel_names
   \<and> truthy (js_get ALLOWED_CHANNELS ''toString'')
   \<and> \<not> isChannelAllowed ALLOWED_CHANNELS ''toString''
   \<and> truthy (js_get ALLOWED_CHANNELS ''constructor'')
   \<and> \<not> isChannelAllowed ALLOWED_CHANNELS ''constructor''
   \<and> truthy (js_get ALLOWED_CHANNELS ''hasOwnProperty'')
   \<and> \<not> isChannelAllowed ALLOWED_CHANNELS ''hasOwnProperty''"
proof -
  have names: "length channel_names = 17" "distinct channel_names"
    "map fst ALLOWED_CHANNELS = channel_names"
    by (simp_all add: channel_names_def ALLOWED_CHANNELS_def)
  have inherited:
    "js_get ALLOWED_CHANNELS ''toString'' = JSFunction"
    "js_get ALLOWED_CHANNELS ''constructor'' = JSFunction"
    "js_get ALLOWED_CHANNELS ''hasOwnProperty'' = JSFunction"
    by (simp_all add: js_get_def ALLOWED_CHANNELS_def Object_prototype_def)
  have others:
    "''toString'' \<notin> set channel_names"
    "''constructor'' \<notin> set channel_names"
    "''hasOwnProperty'' \<notin> set channel_names"
    by (simp_all add: channel_names_def)
  show ?thesis
    by (simp add: isChannelAllowed_iff names inherited others)
qed

section \<open>The registry is never changed\<close>

lemma deliver_frame:
  "registry (deliver a t ls s) = registry s
   \<and> ipc_calls (deliver a t ls s) = ipc_calls s
   \<and> next_fn (deliver a t ls s) = next_fn s"
  by (induction ls arbitrary: s) (simp_all add: call_listener_def)

lemma emit_frame:
  "registry (emit c a t s) = registry s"
  "ipc_calls (emit c a t s) = ipc_calls s"
  "next_fn (emit c a t s) = next_fn s"
  by (simp_all add: emit_def deliver_frame)

lemma registry_step: "registry (step x s) = registry s"
  by (cases x)
     (simp_all add: send_def invoke_def on_def once_def unsubscribe_def getVersion_def
        getCwd_def getEnv_def emit_frame ipc_def console_error_def Let_def)

lemma registry_run: "registry (run xs s) = registry s"
  by (induction xs arbitrary: s) (simp_all add: registry_step)

text \<open>
  C6: the membership check depends on the name and on the registry object alone, and no
  operation of the bridge (nor a message from the main process) changes that object: after
  any run of bridge events the check answers as before, and from the initial state it
  answers as the fixed enumeration does.
\<close>

theorem registry_fixed:
  "registry (run ops s) = registry s
   \<and> isChannelAllowed (registry (run ops s)) name = isChannelAllowed (registry s) name
   \<and> isChannelAllowed (registry (run ops bridge_init)) name = (name \<in> set channel_names)
   \<and> registry (snd (send c a s)) = registry s
   \<and> registry (snd (invoke c a r s)) = registry s
   \<and> registry (snd (on c cb s)) = registry s
   \<and> registry (snd (once c cb s)) = registry s
   \<and> registry (unsubscribe c w s) = registry s
   \<and> registry (emit c a t s) = registry s"
proof -
  have ops:
    "registry (snd (send c a s)) = registry s"
    "registry (snd (invoke c a r s)) = registry s"
    "registry (snd (on c cb s)) = registry s"
    "registry (snd (once c cb s)) = registry s"
    "registry (unsubscribe c w s) = registry s"
    "registry (emit c a t s) = registry s"
    using registry_step [of "Call_send c a" s] registry_step [of "Call_invoke c a r" s]
      registry_step [of "Call_on c cb" s] registry_step [of "Call_once c cb" s]
      registry_step [of "Call_unsubscribe c w" s] registry_step [of "Main_emits c a t" s]
    by simp_all
  show ?thesis
    by (simp add: ops registry_run bridge_init_def isChannelAllowed_iff)
qed

section \<open>Rejection before transmission\<close>

lemma step_bridged_calls:
  assumes "registry s = ALLOWED_CHANNELS"
    and "\<forall>call \<in> set (ipc_calls s). bridged_call call \<longrightarrow> call_channel call \<in> set channel_names"
  shows "\<forall>call \<in> set (ipc_calls (step x s)). bridged_call call \<longrightarrow> call_channel call \<in> set channel_names"
proof (cases x)
  case (Call_getCwd r)
  then show ?thesis using assms by (simp add: getCwd_def ipc_def channel_names_def)
next
  case (Call_getEnv r)
  then show ?thesis using assms by (simp add: getEnv_def ipc_def channel_names_def)
qed (use assms in \<open>auto simp add: send_def invoke_def on_def once_def unsubscribe_def
       getVersion_def emit_frame ipc_def console_error_def Let_def isChannelAllowed_iff\<close>)

lemma run_bridged_calls:
  assumes "registry s = ALLOWED_CHANNELS"
    and "\<forall>call \<in> set (ipc_calls s). bridged_call call \<longrightarrow> call_channel call \<in> set channel_names"
  shows "\<forall>call \<in> set (ipc_calls (run xs s)). bridged_call call \<longrightarrow> call_channel call \<in> set channel_names"
  using assms
proof (induction xs arbitrary: s)
  case Nil
  then show ?case by simp
next
  case (Cons x xs)
  have "registry (step x s) = ALLOWED_CHANNELS"
    using Cons.prems(1) by (simp add: registry_step)
  moreover note step_bridged_calls [OF Cons.prems]
  ultimately show ?case using Cons.IH [of "step x s"] by simp
qed

text \<open>
  C1: for a name outside the registry, \<^verbatim>\<open>send\<close>, \<^verbatim>\<open>on\<close> and \<^verbatim>\<open>once\<close> throw and \<^verbatim>\<open>invoke\<close>
  yields a rejected promise, each with the same error; none of them makes any call on
  \<^verbatim>\<open>ipcRenderer\<close> or registers a listener (only a \<^verbatim>\<open>console.error\<close> line is written). In
  any run of the bridge from its initial state, every \<^verbatim>\<open>send\<close>, \<^verbatim>\<open>invoke\<close>, \<^verbatim>\<open>on\<close> or
  \<^verbatim>\<open>once\<close> call that reached \<^verbatim>\<open>ipcRenderer\<close> names a registered channel.
\<close>

theorem unregistered_rejected_before_transmission:
  assumes "registry s = ALLOWED_CHANNELS" and "channel \<notin> set channel_names"
  shows "fst (send channel args s) = Inl (not_allowed channel)
    \<and> ipc_calls (snd (send channel args s)) = ipc_calls s
    \<and> fst (invoke channel args reply s) = Inr (Ret_promise (Inl (not_allowed channel)))
    \<and> ipc_calls (snd (invoke channel args reply s)) = ipc_calls s
    \<and> fst (on channel callback s) = Inl (not_allowed channel)
    \<and> ipc_calls (snd (on channel callback s)) = ipc_calls s
    \<and> listeners (snd (on channel callback s)) = listeners s
    \<and> fst (once channel callback s) = Inl (not_allowed channel)
    \<and> ipc_calls (snd (once channel callback s)) = ipc_calls s
    \<and> listeners (snd (once channel callback s)) = listeners s
    \<and> (\<forall>call \<in> set (ipc_calls (run ops (bridge_init :: 'a bridge))).
          bridged_call call \<longrightarrow> call_channel call \<noteq> channel)"
proof -
  have blocked: "\<not> isChannelAllowed (registry s) channel"
    using assms by (simp add: isChannelAllowed_iff)
  have log: "\<forall>call \<in> set (ipc_calls (run ops (bridge_init :: 'a bridge))).
          bridged_call call \<longrightarrow> call_channel call \<in> set channel_names"
    by (rule run_bridged_calls) (simp_all add: bridge_init_def)
  have seen: "\<forall>call \<in> set (ipc_calls (run ops (bridge_init :: 'a bridge))).
          bridged_call call \<longrightarrow> call_channel call \<noteq> channel"
    using log assms(2) by blast
  show ?thesis
    using blocked seen
    by (simp add: send_def invoke_def on_def once_def console_error_def)
qed

theorem unregistered_rejected_before_transmission_witness:
  "registry (bridge_init :: string bridge) = ALLOWED_CHANNELS
   \<and> ''shell:exec'' \<notin> set channel_names
   \<and> fst (send ''shell:exec'' [''id''] (bridge_init :: string bridge))
       = Inl (not_allowed ''shell:exec'')
   \<and> ipc_calls (snd (send ''shell:exec'' [''id''] (bridge_init :: string bridge))) = []
   \<and> fst (invoke ''shell:exec'' [''id''] (Inr ''ok'') (bridge_init :: string bridge))
       = Inr (Ret_promise (Inl (not_allowed ''shell:exec'')))
   \<and> ipc_calls (snd (on ''shell:exec'' 0 (bridge_init :: string bridge))) = []
   \<and> ipc_calls (snd (once ''shell:exec'' 0 (bridge_init :: string bridge))) = []"
proof -
  have reg: "registry (bridge_init :: string bridge) = ALLOWED_CHANNELS"
    by (simp add: bridge_init_def)
  have out: "''shell:exec'' \<notin> set channel_names"
    by (simp add: channel_names_def)
  have empty: "ipc_calls (bridge_init :: string bridge) = []"
    by (simp add: bridge_init_def)
  note at_input = unregistered_rejected_before_transmission
      [OF reg out, of "[''id'']" "Inr ''ok''" 0 "[]", unfolded empty]
  show ?thesis
    using reg out at_input by blast
qed

section \<open>Listeners and their identities\<close>

lemma remove_first_distinct:
  assumes "distinct (map l_fn ls)"
  shows "remove_first (\<lambda>l. l_channel l = c \<and> l_fn l = w) ls
         = filter (\<lambda>l. \<not> (l_channel l = c \<and> l_fn l = w)) ls"
  using assms
proof (induction ls)
  case Nil
  then show ?case by simp
next
  case (Cons x xs)
  show ?case
  proof (cases "l_channel x = c \<and> l_fn x = w")
    case True
    then have "\<forall>y \<in> set xs. l_fn y \<noteq> w"
      using Cons.prems by (auto simp add: image_iff)
    then have "filter (\<lambda>l. \<not> (l_channel l = c \<and> l_fn l = w)) xs = xs"
      by (simp add: filter_id_conv)
    then show ?thesis using True by simp
  next
    case False
    then show ?thesis using Cons by auto
  qed
qed

lemma removeListener_filter:
  assumes "distinct (map l_fn ls)"
  shows "removeListener c w ls = filter (\<lambda>l. \<not> (l_channel l = c \<and> l_fn l = w)) ls"
proof -
  have "distinct (map l_fn (rev ls))"
    using assms by (simp add: rev_map [symmetric])
  then show ?thesis
    by (simp add: removeListener_def remove_first_distinct rev_filter [symmetric])
qed

lemma fresh_ids_init: "fresh_ids bridge_init"
  by (simp add: fresh_ids_def bridge_init_def)

lemma fresh_ids_on: "fresh_ids s \<Longrightarrow> fresh_ids (snd (on c cb s))"
  by (auto simp add: fresh_ids_def on_def ipc_def console_error_def Let_def list_all_iff)

lemma fresh_ids_once: "fresh_ids s \<Longrightarrow> fresh_ids (snd (once c cb s))"
  by (auto simp add: fresh_ids_def once_def ipc_def console_error_def Let_def list_all_iff)

lemma fresh_ids_unsubscribe: "fresh_ids s \<Longrightarrow> fresh_ids (unsubscribe c w s)"
  by (auto simp add: fresh_ids_def unsubscribe_def ipc_def removeListener_filter
        distinct_map_filter list_all_iff)

lemma set_remove_first: "set (remove_first P xs) \<subseteq> set xs"
  by (induction xs) auto

lemma set_removeListener: "set (removeListener c f ls) \<subseteq> set ls"
  using set_remove_first [of "\<lambda>l. l_channel l = c \<and> l_fn l = f" "rev ls"]
  by (simp add: removeListener_def)

lemma call_listener_next_fn: "next_fn (call_listener a l s) = next_fn s"
  by (simp add: call_listener_def)

lemma fresh_ids_call:
  assumes "fresh_ids s" and "l_fn l < next_fn s"
  shows "fresh_ids (call_listener a l s)"
  using assms
  by (auto simp add: fresh_ids_def call_listener_def removeListener_filter
        distinct_map_filter list_all_iff)

lemma fresh_ids_deliver:
  assumes "fresh_ids s" and "\<forall>l \<in> set ls. l_fn l < next_fn s"
  shows "fresh_ids (deliver a t ls s)"
  using assms
proof (induction ls arbitrary: s)
  case Nil
  then show ?case by simp
next
  case (Cons l ls)
  have called: "fresh_ids (call_listener a l s)"
    using Cons.prems by (simp add: fresh_ids_call)
  have "\<forall>x \<in> set ls. l_fn x < next_fn (call_listener a l s)"
    using Cons.prems(2) by (simp add: call_listener_next_fn)
  then have "fresh_ids (deliver a t ls (call_listener a l s))"
    using called by (rule Cons.IH [rotated])
  then show ?case
    using called by simp
qed

lemma snapshot_below:
  assumes "fresh_ids s"
  shows "\<forall>l \<in> set (filter (\<lambda>l. l_channel l = c) (listeners s)). l_fn l < next_fn s"
  using assms by (auto simp add: fresh_ids_def list_all_iff)

lemma fresh_ids_emit: "fresh_ids s \<Longrightarrow> fresh_ids (emit c a t s)"
  by (simp add: emit_def fresh_ids_deliver snapshot_below)

lemma fresh_ids_step: "fresh_ids s \<Longrightarrow> fresh_ids (step x s)"
proof (cases x)
  case (Call_on c cb)
  then show "fresh_ids s \<Longrightarrow> ?thesis" by (simp add: fresh_ids_on)
next
  case (Call_once c cb)
  then show "fresh_ids s \<Longrightarrow> ?thesis" by (simp add: fresh_ids_once)
next
  case (Call_unsubscribe c w)
  then show "fresh_ids s \<Longrightarrow> ?thesis" by (simp add: fresh_ids_unsubscribe)
next
  case (Main_emits c a t)
  then show "fresh_ids s \<Longrightarrow> ?thesis" by (simp add: fresh_ids_emit)
qed (simp_all add: fresh_ids_def send_def invoke_def getVersion_def getCwd_def getEnv_def
       ipc_def console_error_def)

lemma fresh_ids_run: "fresh_ids s \<Longrightarrow> fresh_ids (run xs s)"
  by (induction xs arbitrary: s) (simp_all add: fresh_ids_step)

lemma owned_by_call:
  assumes "owned_by w L s"
  shows "owned_by w L (call_listener a l s)"
  using assms set_removeListener [of "l_channel l" "l_fn l" "listeners s"]
  by (auto simp add: owned_by_def call_listener_def list_all_iff)

lemma owned_by_deliver:
  assumes "owned_by w L s"
  shows "owned_by w L (deliver a t ls s)"
  using assms
  by (induction ls arbitrary: s) (simp_all add: owned_by_call)

lemma owned_by_step:
  assumes "fresh_ids s" and "owned_by w L s"
  shows "owned_by w L (step x s)"
proof (cases x)
  case (Call_unsubscribe c v)
  then show ?thesis
    using assms
    by (auto simp add: owned_by_def fresh_ids_def unsubscribe_def ipc_def
          removeListener_filter list_all_iff)
next
  case (Main_emits c a t)
  then show ?thesis
    using assms(2) by (simp add: emit_def owned_by_deliver)
qed (use assms in \<open>auto simp add: owned_by_def send_def invoke_def on_def once_def
       getVersion_def getCwd_def getEnv_def ipc_def console_error_def Let_def
       list_all_iff\<close>)

lemma owned_by_run:
  assumes "fresh_ids s" and "owned_by w L s"
  shows "owned_by w L (run xs s)"
  using assms
proof (induction xs arbitrary: s)
  case Nil
  then show ?case by simp
next
  case (Cons x xs)
  then show ?case
    using fresh_ids_step [of s x] owned_by_step [of s w L x] by simp
qed

lemma reachable_fresh: "fresh_ids (run pre bridge_init)"
  by (simp add: fresh_ids_run fresh_ids_init)

lemma reachable_allowed:
  "isChannelAllowed (registry (run pre bridge_init)) c = (c \<in> set channel_names)"
  by (simp add: registry_run bridge_init_def isChannelAllowed_iff)

lemma owned_by_new:
  assumes "fresh_ids s"
  shows "owned_by (next_fn s) L (s\<lparr>next_fn := Suc (next_fn s), listeners := listeners s @ [L]\<rparr>)"
  using assms by (auto simp add: owned_by_def fresh_ids_def list_all_iff)

lemma unsubscribe_owned:
  assumes "fresh_ids s" and "owned_by w L s" and "l_channel L = c"
  shows "listeners (unsubscribe c w s) = filter (\<lambda>l. l_fn l \<noteq> w) (listeners s)"
proof -
  have "distinct (map l_fn (listeners s))"
    using assms(1) by (simp add: fresh_ids_def)
  then have "listeners (unsubscribe c w s)
             = filter (\<lambda>l. \<not> (l_channel l = c \<and> l_fn l = w)) (listeners s)"
    by (simp add: unsubscribe_def ipc_def removeListener_filter)
  also have "\<dots> = filter (\<lambda>l. l_fn l \<noteq> w) (listeners s)"
    using assms(2,3) by (intro filter_cong) (auto simp add: owned_by_def list_all_iff)
  finally show ?thesis .
qed

text \<open>
  C7: on a registered capability, \<^verbatim>\<open>on\<close> returns a handle (the closure over the channel and
  the fresh wrapper). Whatever happens on the bridge afterwards (other \<^verbatim>\<open>on\<close> and \<^verbatim>\<open>once\<close>
  calls on the same or other capabilities, other handles invoked, messages delivered),
  invoking the handle takes out the listeners that carry the wrapper of this call, and
  only this call's listener carries it; every other listener stays registered, in
  order. Invoked at once, it restores the listeners as they were before the call.
\<close>

theorem on_handle_removes_exactly_its_listener:
  assumes "c \<in> set channel_names"
    and "s = run pre bridge_init"
    and "L = \<lparr>l_fn = next_fn s, l_channel = c, l_callback = cb, l_once = False\<rparr>"
    and "s2 = run ops (snd (on c cb s))"
  shows "fst (on c cb s) = Inr (Ret_unsubscribe c (next_fn s))
    \<and> listeners (snd (on c cb s)) = listeners s @ [L]
    \<and> listeners (unsubscribe c (next_fn s) (snd (on c cb s))) = listeners s
    \<and> listeners (unsubscribe c (next_fn s) s2) = filter (\<lambda>l. l_fn l \<noteq> next_fn s) (listeners s2)
    \<and> (\<forall>l \<in> set (listeners s2). l_fn l = next_fn s \<longrightarrow> l = L)
    \<and> (\<forall>l \<in> set (listeners s2). l \<noteq> L \<longrightarrow> l \<in> set (listeners (unsubscribe c (next_fn s) s2)))"
proof -
  let ?w = "next_fn s"
  let ?s1 = "snd (on c cb s)"
  have fresh: "fresh_ids s"
    using assms(2) by (simp add: reachable_fresh)
  have allowed: "isChannelAllowed (registry s) c"
    using assms(1,2) by (simp add: reachable_allowed)
  have s1: "?s1 = ipc (Ipc_on c ?w) (s\<lparr>next_fn := Suc ?w, listeners := listeners s @ [L]\<rparr>)"
    using allowed assms(3) by (simp add: on_def Let_def)
  have ret: "fst (on c cb s) = Inr (Ret_unsubscribe c ?w)"
    using allowed by (simp add: on_def Let_def)
  have ls1: "listeners ?s1 = listeners s @ [L]"
    by (simp add: s1 ipc_def)
  have fresh1: "fresh_ids ?s1"
    using fresh by (rule fresh_ids_on)
  have own1: "owned_by ?w L ?s1"
    using owned_by_new [OF fresh, of L] by (simp add: s1 ipc_def owned_by_def)
  have chan: "l_channel L = c"
    by (simp add: assms(3))
  have old: "\<forall>l \<in> set (listeners s). l_fn l \<noteq> ?w"
    using fresh by (auto simp add: fresh_ids_def list_all_iff)
  have "listeners (unsubscribe c ?w ?s1) = filter (\<lambda>l. l_fn l \<noteq> ?w) (listeners s @ [L])"
    using unsubscribe_owned [OF fresh1 own1 chan] by (simp add: ls1)
  also have "\<dots> = listeners s"
    using old by (simp add: assms(3) filter_id_conv)
  finally have undo: "listeners (unsubscribe c ?w ?s1) = listeners s" .
  have fresh2: "fresh_ids s2"
    using fresh1 by (simp add: assms(4) fresh_ids_run)
  have own2: "owned_by ?w L s2"
    using fresh1 own1 by (simp add: assms(4) owned_by_run)
  have later: "listeners (unsubscribe c ?w s2) = filter (\<lambda>l. l_fn l \<noteq> ?w) (listeners s2)"
    by (rule unsubscribe_owned [OF fresh2 own2 chan])
  have only: "\<forall>l \<in> set (listeners s2). l_fn l = ?w \<longrightarrow> l = L"
    using own2 by (auto simp add: owned_by_def list_all_iff)
  have kept: "\<forall>l \<in> set (listeners s2). l \<noteq> L \<longrightarrow> l \<in> set (listeners (unsubscribe c ?w s2))"
    using only by (auto simp add: later)
  show ?thesis
    using ret ls1 undo later only kept by blast
qed

theorem on_handle_removes_exactly_its_listener_witness:
  "''terminal:data'' \<in> set channel_names
   \<and> fst (on ''terminal:data'' 7 (bridge_init :: string bridge))
       = Inr (Ret_unsubscribe ''terminal:data'' 0)
   \<and> listeners (unsubscribe ''terminal:data'' 0
        (run [Call_on ''terminal:data'' 8, Call_once ''terminal:exit'' 9]
           (snd (on ''terminal:data'' 7 (bridge_init :: string bridge)))))
       = [\<lparr>l_fn = 1, l_channel = ''terminal:data'', l_callback = 8, l_once = False\<rparr>,
          \<lparr>l_fn = 2, l_channel = ''terminal:exit'', l_callback = 9, l_once = True\<rparr>]"
proof -
  have reg: "''terminal:data'' \<in> set channel_names" "''terminal:exit'' \<in> set channel_names"
    by (simp_all add: channel_names_def)
  have allowed:
    "isChannelAllowed ALLOWED_CHANNELS ''terminal:data''"
    "isChannelAllowed ALLOWED_CHANNELS ''terminal:exit''"
    using reg by (simp_all add: isChannelAllowed_iff)
  note at_input = on_handle_removes_exactly_its_listener
    [OF reg(1), of "bridge_init :: string bridge" "[]" _ 7 _
       "[Call_on ''terminal:data'' 8, Call_once ''terminal:exit'' 9]", OF _ refl refl]
  have "listeners (unsubscribe ''terminal:data'' 0
        (run [Call_on ''terminal:data'' 8, Call_once ''terminal:exit'' 9]
           (snd (on ''terminal:data'' 7 (bridge_init :: string bridge)))))
       = filter (\<lambda>l. l_fn l \<noteq> 0)
          (listeners (run [Call_on ''terminal:data'' 8, Call_once ''terminal:exit'' 9]
             (snd (on ''terminal:data'' 7 (bridge_init :: string bridge)))))"
    using at_input by (simp add: bridge_init_def)
  also have "\<dots> = [\<lparr>l_fn = 1, l_channel = ''terminal:data'', l_callback = 8, l_once = False\<rparr>,
          \<lparr>l_fn = 2, l_channel = ''terminal:exit'', l_callback = 9, l_once = True\<rparr>]"
    by (simp add: on_def once_def ipc_def bridge_init_def allowed Let_def)
  finally have removed: "listeners (unsubscribe ''terminal:data'' 0
        (run [Call_on ''terminal:data'' 8, Call_once ''terminal:exit'' 9]
           (snd (on ''terminal:data'' 7 (bridge_init :: string bridge)))))
       = [\<lparr>l_fn = 1, l_channel = ''terminal:data'', l_callback = 8, l_once = False\<rparr>,
          \<lparr>l_fn = 2, l_channel = ''terminal:exit'', l_callback = 9, l_once = True\<rparr>]" .
  have "fst (on ''terminal:data'' 7 (bridge_init :: string bridge))
       = Inr (Ret_unsubscribe ''terminal:data'' 0)"
    using at_input by (simp add: bridge_init_def)
  then show ?thesis
    using reg(1) removed by simp
qed

section \<open>One-shot listeners\<close>

lemma deliveries_call:
  "deliveries w (call_listener a l s) = deliveries w s + (if l_fn l = w then 1 else 0)"
  by (simp add: deliveries_def call_listener_def)

lemma registered_call:
  assumes "registered w (call_listener a l s)"
  shows "registered w s"
  using assms set_removeListener [of "l_channel l" "l_fn l" "listeners s"]
  by (auto simp add: registered_def call_listener_def split: if_splits)

lemma one_shot_call_unregisters:
  assumes "fresh_ids s" and "owned_by w L s" and "l_once L"
  shows "\<not> registered w (call_listener a L s)"
proof -
  have "distinct (map l_fn (listeners s))"
    using assms(1) by (simp add: fresh_ids_def)
  then have "listeners (call_listener a L s)
             = filter (\<lambda>l. \<not> (l_channel l = l_channel L \<and> l_fn l = l_fn L)) (listeners s)"
    using assms(3) by (simp add: call_listener_def removeListener_filter)
  moreover have "\<forall>l \<in> set (listeners s). l_fn l = w \<longrightarrow> l = L"
    using assms(2) by (auto simp add: owned_by_def list_all_iff)
  ultimately show ?thesis
    by (auto simp add: registered_def)
qed

text \<open>
  The loop of the emitter keeps this true of a one-shot closure \<open>w\<close>: it has passed on at
  most one message, and none while it is registered or still ahead in the copied list.
\<close>

lemma call_keeps_at_most_once:
  assumes "fresh_ids s" and "owned_by w L s" and "l_once L"
    and "distinct (map l_fn (l # ls))"
    and "\<forall>x \<in> set (l # ls). l_fn x = w \<longrightarrow> x = L"
    and "deliveries w s \<le> 1"
    and "registered w s \<or> w \<in> l_fn ` set (l # ls) \<longrightarrow> deliveries w s = 0"
  shows "deliveries w (call_listener a l s) \<le> 1
    \<and> (registered w (call_listener a l s) \<or> w \<in> l_fn ` set ls
         \<longrightarrow> deliveries w (call_listener a l s) = 0)"
proof (cases "l_fn l = w")
  case True
  then have l: "l = L"
    using assms(5) by simp
  have zero: "deliveries w s = 0"
    using assms(7) True by simp
  have gone: "\<not> registered w (call_listener a l s)"
    using one_shot_call_unregisters [OF assms(1,2,3)] by (simp add: l)
  have "w \<notin> l_fn ` set ls"
    using assms(4) True by auto
  then show ?thesis
    using gone zero True by (simp add: deliveries_call)
next
  case False
  have same: "deliveries w (call_listener a l s) = deliveries w s"
    using False by (simp add: deliveries_call)
  have earlier: "registered w (call_listener a l s) \<longrightarrow> registered w s"
    using registered_call [of w a l s] by blast
  have le: "deliveries w (call_listener a l s) \<le> 1"
    using assms(6) by (simp add: same)
  have zero: "registered w (call_listener a l s) \<or> w \<in> l_fn ` set ls
         \<longrightarrow> deliveries w (call_listener a l s) = 0"
  proof
    assume "registered w (call_listener a l s) \<or> w \<in> l_fn ` set ls"
    then have "registered w s \<or> w \<in> l_fn ` set (l # ls)"
      using earlier by auto
    then show "deliveries w (call_listener a l s) = 0"
      using assms(7) by (simp only: same)
  qed
  show ?thesis
    using le zero by (rule conjI)
qed

lemma deliver_at_most_once:
  assumes "fresh_ids s" and "owned_by w L s" and "l_once L"
    and "distinct (map l_fn ls)"
    and "\<forall>x \<in> set ls. l_fn x < next_fn s"
    and "\<forall>x \<in> set ls. l_fn x = w \<longrightarrow> x = L"
    and "deliveries w s \<le> 1"
    and "registered w s \<or> w \<in> l_fn ` set ls \<longrightarrow> deliveries w s = 0"
  shows "at_most_once w (deliver a t ls s)"
  using assms
proof (induction ls arbitrary: s)
  case Nil
  then show ?case
    by (auto simp add: at_most_once_def)
next
  case (Cons l ls)
  let ?s1 = "call_listener a l s"
  have fresh1: "fresh_ids ?s1"
    using Cons.prems(1,5) by (simp add: fresh_ids_call)
  have own1: "owned_by w L ?s1"
    using Cons.prems(2) by (rule owned_by_call)
  have kept: "deliveries w ?s1 \<le> 1
    \<and> (registered w ?s1 \<or> w \<in> l_fn ` set ls \<longrightarrow> deliveries w ?s1 = 0)"
    by (rule call_keeps_at_most_once
          [OF Cons.prems(1) Cons.prems(2) Cons.prems(3) Cons.prems(4) Cons.prems(6)
              Cons.prems(7) Cons.prems(8)])
  show ?case
  proof (cases "t (l_fn l)")
    case True
    then show ?thesis
      using kept by (auto simp add: at_most_once_def)
  next
    case False
    have "at_most_once w (deliver a t ls ?s1)"
    proof (rule Cons.IH [OF fresh1 own1 Cons.prems(3)])
      show "distinct (map l_fn ls)"
        using Cons.prems(4) by simp
      show "\<forall>x \<in> set ls. l_fn x < next_fn ?s1"
        using Cons.prems(5) by (simp add: call_listener_next_fn)
      show "\<forall>x \<in> set ls. l_fn x = w \<longrightarrow> x = L"
        using Cons.prems(6) by simp
      show "deliveries w ?s1 \<le> 1"
        using kept by simp
      show "registered w ?s1 \<or> w \<in> l_fn ` set ls \<longrightarrow> deliveries w ?s1 = 0"
        using kept by simp
    qed
    then show ?thesis
      using False by simp
  qed
qed

lemma at_most_once_emit:
  assumes "fresh_ids s" and "owned_by w L s" and "l_once L" and "at_most_once w s"
  shows "at_most_once w (emit c a t s)"
proof -
  let ?ls = "filter (\<lambda>l. l_channel l = c) (listeners s)"
  have d: "distinct (map l_fn ?ls)"
    using assms(1) by (simp add: fresh_ids_def distinct_map_filter)
  have own: "\<forall>x \<in> set ?ls. l_fn x = w \<longrightarrow> x = L"
    using assms(2) by (auto simp add: owned_by_def list_all_iff)
  have le: "deliveries w s \<le> 1"
    using assms(4) by (simp add: at_most_once_def)
  have "w \<in> l_fn ` set ?ls \<longrightarrow> registered w s"
    by (auto simp add: registered_def)
  then have zero: "registered w s \<or> w \<in> l_fn ` set ?ls \<longrightarrow> deliveries w s = 0"
    using assms(4) by (auto simp add: at_most_once_def)
  show ?thesis
    unfolding emit_def
    by (rule deliver_at_most_once
          [OF assms(1) assms(2) assms(3) d snapshot_below [OF assms(1)] own le zero])
qed

lemma at_most_once_step:
  assumes "fresh_ids s" and "owned_by w L s" and "l_once L" and "at_most_once w s"
  shows "at_most_once w (step x s)"
proof (cases x)
  case (Main_emits c a t)
  then show ?thesis using assms by (simp add: at_most_once_emit)
next
  case (Call_unsubscribe c v)
  then show ?thesis
    using assms
    by (auto simp add: at_most_once_def deliveries_def registered_def fresh_ids_def
          unsubscribe_def ipc_def removeListener_filter)
next
  case (Call_on c cb)
  then show ?thesis
    using assms
    by (auto simp add: at_most_once_def deliveries_def registered_def owned_by_def
          on_def ipc_def console_error_def Let_def)
next
  case (Call_once c cb)
  then show ?thesis
    using assms
    by (auto simp add: at_most_once_def deliveries_def registered_def owned_by_def
          once_def ipc_def console_error_def Let_def)
qed (use assms in \<open>auto simp add: at_most_once_def deliveries_def registered_def
       send_def invoke_def getVersion_def getCwd_def getEnv_def ipc_def console_error_def\<close>)

lemma at_most_once_run:
  assumes "fresh_ids s" and "owned_by w L s" and "l_once L" and "at_most_once w s"
  shows "at_most_once w (run xs s)"
  using assms
proof (induction xs arbitrary: s)
  case Nil
  then show ?case by simp
next
  case (Cons x xs)
  then show ?case
    using fresh_ids_step [of s x] owned_by_step [of s w L x] at_most_once_step [of s w L x]
    by simp
qed

text \<open>
  A delivery cut short: the callback of the first listener throws, so the one-shot
  listener registered after it is neither called nor taken out.
\<close>

lemma throwing_callback_stops_delivery:
  "invoked (emit ''terminal:data'' [''x''] (\<lambda>w. w = 0)
      (run [Call_on ''terminal:data'' 7, Call_once ''terminal:data'' 8]
         (bridge_init :: string bridge)))
     = [(0, 7, [''x''])]
   \<and> registered 1 (emit ''terminal:data'' [''x''] (\<lambda>w. w = 0)
      (run [Call_on ''terminal:data'' 7, Call_once ''terminal:data'' 8]
         (bridge_init :: string bridge)))"
proof -
  have "''terminal:data'' \<in> set channel_names"
    by (simp add: channel_names_def)
  then have allowed: "isChannelAllowed ALLOWED_CHANNELS ''terminal:data''"
    by (simp add: isChannelAllowed_iff)
  show ?thesis
    by (simp add: on_def once_def emit_def call_listener_def removeListener_def ipc_def
          bridge_init_def allowed Let_def registered_def)
qed

text \<open>
  C8, as the claim states it, fails on its first part: \<^verbatim>\<open>once\<close> on a registered capability
  registers the listener and returns \<^verbatim>\<open>undefined\<close>, not a handle.
\<close>

theorem once_returns_no_handle:
  "fst (once ''terminal:data'' 7 (bridge_init :: string bridge)) = Inr Ret_undefined
   \<and> \<not> is_handle (Ret_undefined :: string ret)
   \<and> registered 0 (snd (once ''terminal:data'' 7 (bridge_init :: string bridge)))"
proof -
  have "''terminal:data'' \<in> set channel_names"
    by (simp add: channel_names_def)
  then have "isChannelAllowed ALLOWED_CHANNELS ''terminal:data''"
    by (simp add: isChannelAllowed_iff)
  then show ?thesis
    by (simp add: once_def bridge_init_def ipc_def registered_def Let_def)
qed

text \<open>
  C8, amended: on a registered capability \<^verbatim>\<open>once\<close> returns no handle (\<^verbatim>\<open>undefined\<close>) and
  registers a one-shot listener. Whatever happens on the bridge afterwards, that listener
  passes at most one message on to the callback, and once it has passed one on, it is no
  longer registered.
\<close>

theorem once_delivers_at_most_once:
  assumes "c \<in> set channel_names"
    and "s = run pre bridge_init"
    and "w = next_fn s"
    and "s2 = run ops (snd (once c cb s))"
  shows "fst (once c cb s) = Inr Ret_undefined
    \<and> listeners (snd (once c cb s))
        = listeners s @ [\<lparr>l_fn = w, l_channel = c, l_callback = cb, l_once = True\<rparr>]
    \<and> deliveries w (snd (once c cb s)) = 0
    \<and> deliveries w s2 \<le> 1
    \<and> (deliveries w s2 = 1 \<longrightarrow> \<not> registered w s2)"
proof -
  let ?L = "\<lparr>l_fn = w, l_channel = c, l_callback = cb, l_once = True\<rparr>"
  let ?s1 = "snd (once c cb s)"
  have fresh: "fresh_ids s"
    using assms(2) by (simp add: reachable_fresh)
  have allowed: "isChannelAllowed (registry s) c"
    using assms(1,2) by (simp add: reachable_allowed)
  have s1: "?s1 = ipc (Ipc_once c w) (s\<lparr>next_fn := Suc w, listeners := listeners s @ [?L]\<rparr>)"
    using allowed assms(3) by (simp add: once_def Let_def)
  have ret: "fst (once c cb s) = Inr Ret_undefined"
    using allowed by (simp add: once_def Let_def)
  have ls1: "listeners ?s1 = listeners s @ [?L]"
    by (simp add: s1 ipc_def)
  have "\<forall>d \<in> set (invoked s). fst d \<noteq> w"
    using fresh assms(3) by (auto simp add: fresh_ids_def list_all_iff)
  then have "filter (\<lambda>d. fst d = w) (invoked s) = []"
    by (simp add: filter_empty_conv)
  then have zero1: "deliveries w ?s1 = 0"
    by (simp add: deliveries_def s1 ipc_def)
  have fresh1: "fresh_ids ?s1"
    using fresh by (rule fresh_ids_once)
  have own1: "owned_by w ?L ?s1"
    using owned_by_new [OF fresh, of ?L] assms(3) by (simp add: s1 ipc_def owned_by_def)
  have once1: "at_most_once w ?s1"
    using zero1 by (simp add: at_most_once_def)
  have fresh2: "fresh_ids s2"
    using fresh1 by (simp add: assms(4) fresh_ids_run)
  have own2: "owned_by w ?L s2"
    using fresh1 own1 by (simp add: assms(4) owned_by_run)
  have once2: "at_most_once w s2"
    using at_most_once_run [OF fresh1 own1 _ once1, of ops] by (simp add: assms(4))
  have le: "deliveries w s2 \<le> 1"
    using once2 by (simp add: at_most_once_def)
  have gone: "deliveries w s2 = 1 \<longrightarrow> \<not> registered w s2"
    using once2 by (auto simp add: at_most_once_def)
  show ?thesis
    using ret ls1 zero1 le gone by blast
qed

theorem once_delivers_at_most_once_witness:
  "''terminal:exit'' \<in> set channel_names
   \<and> deliveries 0
       (run [Main_emits ''terminal:exit'' [''0''] (\<lambda>w. False),
           Main_emits ''terminal:exit'' [''1''] (\<lambda>w. False)]
          (snd (once ''terminal:exit'' 5 (bridge_init :: string bridge)))) \<le> 1
   \<and> invoked
       (run [Main_emits ''terminal:exit'' [''0''] (\<lambda>w. False),
           Main_emits ''terminal:exit'' [''1''] (\<lambda>w. False)]
          (snd (once ''terminal:exit'' 5 (bridge_init :: string bridge))))
       = [(0, 5, [''0''])]
   \<and> \<not> registered 0
       (run [Main_emits ''terminal:exit'' [''0''] (\<lambda>w. False),
           Main_emits ''terminal:exit'' [''1''] (\<lambda>w. False)]
          (snd (once ''terminal:exit'' 5 (bridge_init :: string bridge))))"
proof -
  let ?s2 = "run [Main_emits ''terminal:exit'' [''0''] (\<lambda>w. False),
           Main_emits ''terminal:exit'' [''1''] (\<lambda>w. False)]
          (snd (once ''terminal:exit'' 5 (bridge_init :: string bridge)))"
  have reg: "''terminal:exit'' \<in> set channel_names"
    by (simp add: channel_names_def)
  then have allowed: "isChannelAllowed ALLOWED_CHANNELS ''terminal:exit''"
    by (simp add: isChannelAllowed_iff)
  have w: "0 = next_fn (bridge_init :: string bridge)"
    by (simp add: bridge_init_def)
  note at_input = once_delivers_at_most_once
    [OF reg, of "bridge_init :: string bridge" "[]" 0 ?s2
       "[Main_emits ''terminal:exit'' [''0''] (\<lambda>w. False),
           Main_emits ''terminal:exit'' [''1''] (\<lambda>w. False)]" 5,
     OF _ w refl]
  have le: "deliveries 0 ?s2 \<le> 1"
    using at_input by simp
  have log: "invoked ?s2 = [(0, 5, [''0''])]"
    by (simp add: once_def emit_def call_listener_def removeListener_def ipc_def
          bridge_init_def allowed Let_def)
  have out: "\<not> registered 0 ?s2"
    by (simp add: once_def emit_def call_listener_def removeListener_def ipc_def
          bridge_init_def allowed Let_def registered_def)
  show ?thesis
    using reg le log out by simp
qed

section \<open>The accept-time check\<close>

text \<open>
  C2 (the code departs from the claim): the occupied test reads \<^verbatim>\<open>this.wss.clients.length\<close>,
  which is \<^verbatim>\<open>undefined\<close> on the server's \<^verbatim>\<open>Set\<close>, so \<^verbatim>\<open>undefined >= 1\<close> is false and the
  test never rejects. With a connection tracked and awaiting authentication, a second
  upgrade request from a loopback origin is accepted and becomes a second tracked client;
  in general the answer of \<^verbatim>\<open>verifyClient\<close> does not depend on the tracked clients at all.
\<close>

theorem second_attempt_not_rejected:
  "conn_state connection_opened = AwaitingAuth
   \<and> fst (verifyClient \<lparr>clients = [connection_opened], port = 3000, wsAuthToken = ''s3cret''\<rparr>
        \<lparr>info_origin = Some ''http://localhost:3000'',
         header_origin = Some ''http://localhost:3000'',
         header_host = Some ''localhost:3000''\<rparr>) = True
   \<and> clients (accept
        \<lparr>info_origin = Some ''http://localhost:3000'',
         header_origin = Some ''http://localhost:3000'',
         header_host = Some ''localhost:3000''\<rparr>
        \<lparr>clients = [connection_opened], port = 3000, wsAuthToken = ''s3cret''\<rparr>)
       = [connection_opened, connection_opened]
   \<and> verifyClient g info = verifyClient (g\<lparr>clients := []\<rparr>) info"
proof -
  have awaiting: "conn_state connection_opened = AwaitingAuth"
    by (simp add: conn_state_def connection_opened_def)
  have accepted:
    "fst (verifyClient \<lparr>clients = [connection_opened], port = 3000, wsAuthToken = ''s3cret''\<rparr>
        \<lparr>info_origin = Some ''http://localhost:3000'',
         header_origin = Some ''http://localhost:3000'',
         header_host = Some ''localhost:3000''\<rparr>) = True"
    by (simp add: verifyClient_def Set_length_def js_ge_def js_or_def falsy_def
          allowedOrigins_def startsWith_def)
  have second: "clients (accept
        \<lparr>info_origin = Some ''http://localhost:3000'',
         header_origin = Some ''http://localhost:3000'',
         header_host = Some ''localhost:3000''\<rparr>
        \<lparr>clients = [connection_opened], port = 3000, wsAuthToken = ''s3cret''\<rparr>)
       = [connection_opened, connection_opened]"
    using accepted by (simp add: accept_def)
  have blind: "verifyClient g info = verifyClient (g\<lparr>clients := []\<rparr>) info"
    by (simp add: verifyClient_def Set_length_def js_ge_def cong: option.case_cong if_cong)
  show ?thesis
    using awaiting accepted second blind by simp
qed

lemma decimal_3000: "decimal 3000 = ''3000''"
  by (simp add: decimal.simps digit_char_def)

text \<open>
  C3 (the code departs from the claim): the origin is compared with \<^verbatim>\<open>startsWith\<close> against
  every entry of the list, the loopback origins included, so an origin whose host merely
  begins with \<^verbatim>\<open>localhost\<close> is accepted although it is none of the loopback origins and
  carries no trusted local scheme. An origin that shares no prefix with the list, such as
  \<^verbatim>\<open>http://attacker.example\<close>, is rejected.
\<close>

theorem origin_prefix_accepts_foreign_host:
  "\<not> spec_allowed_origin 3000 ''http://localhost.attacker.example''
   \<and> fst (verifyClient \<lparr>clients = [], port = 3000, wsAuthToken = ''s3cret''\<rparr>
        \<lparr>info_origin = Some ''http://localhost.attacker.example'',
         header_origin = Some ''http://localhost.attacker.example'',
         header_host = Some ''localhost:3000''\<rparr>) = True
   \<and> \<not> spec_allowed_origin 3000 ''http://attacker.example''
   \<and> fst (verifyClient \<lparr>clients = [], port = 3000, wsAuthToken = ''s3cret''\<rparr>
        \<lparr>info_origin = Some ''http://attacker.example'',
         header_origin = Some ''http://attacker.example'',
         header_host = Some ''localhost:3000''\<rparr>) = False"
proof -
  have spec:
    "\<not> spec_allowed_origin 3000 ''http://localhost.attacker.example''"
    "\<not> spec_allowed_origin 3000 ''http://attacker.example''"
    by (simp_all add: spec_allowed_origin_def decimal_3000 startsWith_def)
  have accepted:
    "fst (verifyClient \<lparr>clients = [], port = 3000, wsAuthToken = ''s3cret''\<rparr>
        \<lparr>info_origin = Some ''http://localhost.attacker.example'',
         header_origin = Some ''http://localhost.attacker.example'',
         header_host = Some ''localhost:3000''\<rparr>) = True"
    by (simp add: verifyClient_def Set_length_def js_ge_def js_or_def falsy_def
          allowedOrigins_def startsWith_def)
  have rejected:
    "fst (verifyClient \<lparr>clients = [], port = 3000, wsAuthToken = ''s3cret''\<rparr>
        \<lparr>info_origin = Some ''http://attacker.example'',
         header_origin = Some ''http://attacker.example'',
         header_host = Some ''localhost:3000''\<rparr>) = False"
    by (simp add: verifyClient_def Set_length_def js_ge_def js_or_def falsy_def
          allowedOrigins_def decimal_3000 startsWith_def)
  show ?thesis
    using spec accepted rejected by simp
qed

text \<open>
  C4 (the code departs from the claim): without an origin the host header is tested with
  \<^verbatim>\<open>startsWith\<close> too, so a host that merely begins with \<^verbatim>\<open>localhost\<close> is accepted although it
  is not a loopback name. A request with neither origin nor host, or with a host that does
  not begin so, is rejected; \<^verbatim>\<open>localhost:3000\<close> is accepted.
\<close>

theorem host_prefix_accepts_foreign_host:
  "\<not> spec_loopback_host ''localhost.attacker.example:3000''
   \<and> fst (verifyClient \<lparr>clients = [], port = 3000, wsAuthToken = ''s3cret''\<rparr>
        \<lparr>info_origin = None, header_origin = None,
         header_host = Some ''localhost.attacker.example:3000''\<rparr>) = True
   \<and> fst (verifyClient \<lparr>clients = [], port = 3000, wsAuthToken = ''s3cret''\<rparr>
        \<lparr>info_origin = None, header_origin = None, header_host = None\<rparr>) = False
   \<and> fst (verifyClient \<lparr>clients = [], port = 3000, wsAuthToken = ''s3cret''\<rparr>
        \<lparr>info_origin = None, header_origin = None,
         header_host = Some ''attacker.example''\<rparr>) = False
   \<and> spec_loopback_host ''localhost:3000''
   \<and> fst (verifyClient \<lparr>clients = [], port = 3000, wsAuthToken = ''s3cret''\<rparr>
        \<lparr>info_origin = None, header_origin = None,
         header_host = Some ''localhost:3000''\<rparr>) = True"
  by (simp add: verifyClient_def Set_length_def js_ge_def js_or_def falsy_def
        host_from_localhost_def startsWith_def spec_loopback_host_def)

section \<open>The authentication handshake\<close>

lemma elapse_fired:
  assumes "\<not> timer_pending c"
  shows "elapse d c = c\<lparr>clock := clock c + d\<rparr>"
  using assms by (simp add: elapse_def)

lemma only_time_fired:
  assumes "\<not> timer_pending c"
  shows "close_calls (conn_run tok (map Elapse ds) c) = close_calls c"
  using assms
proof (induction ds arbitrary: c)
  case Nil
  then show ?case by simp
next
  case (Cons d ds)
  have "\<not> timer_pending (elapse d c)"
    using Cons.prems by (simp add: elapse_fired)
  then have "close_calls (conn_run tok (map Elapse ds) (elapse d c)) = close_calls (elapse d c)"
    by (rule Cons.IH)
  then show ?case
    using Cons.prems by (simp add: elapse_fired)
qed

lemma only_time_before_deadline:
  assumes "clock c + sum_list ds < 5000"
  shows "conn_run tok (map Elapse ds) c = c\<lparr>clock := clock c + sum_list ds\<rparr>"
  using assms
proof (induction ds arbitrary: c)
  case Nil
  then show ?case by simp
next
  case (Cons d ds)
  have step: "elapse d c = c\<lparr>clock := clock c + d\<rparr>"
    using Cons.prems by (simp add: elapse_def)
  have "clock (elapse d c) + sum_list ds < 5000"
    using Cons.prems by (simp add: step)
  then have "conn_run tok (map Elapse ds) (elapse d c)
             = (elapse d c)\<lparr>clock := clock (elapse d c) + sum_list ds\<rparr>"
    by (rule Cons.IH)
  then show ?case
    by (simp add: step add.assoc)
qed

lemma only_time_past_deadline:
  assumes "timer_pending c" and "\<not> authenticated c" and "clock c < 5000"
    and "5000 \<le> clock c + sum_list ds"
  shows "close_calls (conn_run tok (map Elapse ds) c)
         = close_calls c @ [(4401, ''Authentication timeout'')]"
  using assms
proof (induction ds arbitrary: c)
  case Nil
  then show ?case by simp
next
  case (Cons d ds)
  show ?case
  proof (cases "5000 \<le> clock c + d")
    case True
    then have fired: "elapse d c
        = ws_close 4401 ''Authentication timeout'' (c\<lparr>clock := clock c + d, timer_pending := False\<rparr>)"
      using Cons.prems(1,2) by (simp add: elapse_def authTimeout_def)
    then have "\<not> timer_pending (elapse d c)"
      by (simp add: ws_close_def)
    then have "close_calls (conn_run tok (map Elapse ds) (elapse d c)) = close_calls (elapse d c)"
      by (rule only_time_fired)
    then show ?thesis
      by (simp add: fired ws_close_def)
  next
    case False
    then have step: "elapse d c = c\<lparr>clock := clock c + d\<rparr>"
      by (simp add: elapse_def)
    have "close_calls (conn_run tok (map Elapse ds) (elapse d c))
          = close_calls (elapse d c) @ [(4401, ''Authentication timeout'')]"
      using Cons.prems False by (intro Cons.IH) (simp_all add: step)
    then show ?thesis
      by (simp add: step)
  qed
qed

lemma active_stays_open:
  assumes "authenticated c" and "\<not> once_message c"
  shows "close_calls (conn_run tok es c) = close_calls c \<and> authenticated (conn_run tok es c)"
  using assms
proof (induction es arbitrary: c)
  case Nil
  then show ?case by simp
next
  case (Cons e es)
  have same: "close_calls (conn_step tok e c) = close_calls c"
    and auth: "authenticated (conn_step tok e c)"
    and heard: "\<not> once_message (conn_step tok e c)"
    using Cons.prems
    by (cases e; simp add: elapse_def authTimeout_def message_def)+
  show ?case
    using Cons.IH [OF auth heard] same by simp
qed

lemma authToken_not_null:
  assumes "data \<noteq> JNull"
  shows "\<exists>v. authToken data = Inr v"
  using assms by (cases data) simp_all

text \<open>
  C5, as the claim states it, fails for one message: the text \<^verbatim>\<open>null\<close> parses (to
  \<^verbatim>\<open>null\<close>) and carries no matching token, yet the socket is closed with 4400 and not with
  4403, because reading a property of \<^verbatim>\<open>null\<close> throws inside the \<^verbatim>\<open>try\<close>.
\<close>

theorem null_handshake_closes_as_malformed:
  "close_calls (message ''s3cret'' (Some JNull) connection_opened)
     = [(4400, ''Invalid message format'')]
   \<and> close_calls (message ''s3cret'' (Some JNull) connection_opened)
     \<noteq> [(4403, ''Invalid auth token'')]"
  by (simp add: message_def ws_close_def connection_opened_def)

text \<open>
  C5, amended: with no message until 5000 ms have passed the handler closes the socket
  with 4401, so a silent connection is not left open. For a first message that arrives
  before that: one that does not parse, or parses to \<^verbatim>\<open>null\<close>, closes with 4400; one that
  parses to any other value whose \<^verbatim>\<open>authToken\<close> is not the token closes with 4403; one
  whose \<^verbatim>\<open>authToken\<close> is the token closes nothing, and the connection stays active through
  whatever time passes and whatever messages follow. The three codes differ.
\<close>

theorem handshake_outcomes:
  assumes "sum_list ds < 5000"
    and "c = conn_run tok (map Elapse ds) connection_opened"
  shows "(5000 \<le> sum_list ts \<longrightarrow>
            close_calls (conn_run tok (map Elapse ts) connection_opened)
              = [(4401, ''Authentication timeout'')]
            \<and> conn_state (conn_run tok (map Elapse ts) connection_opened) = Closed)
    \<and> conn_state c = AwaitingAuth
    \<and> close_calls (message tok None c) = [(4400, ''Invalid message format'')]
    \<and> close_calls (message tok (Some JNull) c) = [(4400, ''Invalid message format'')]
    \<and> (data \<noteq> JNull \<and> authToken data \<noteq> Inr (Some (JString tok)) \<longrightarrow>
          close_calls (message tok (Some data) c) = [(4403, ''Invalid auth token'')])
    \<and> (authToken data = Inr (Some (JString tok)) \<longrightarrow>
          conn_state (message tok (Some data) c) = Active
          \<and> conn_state (conn_run tok later (message tok (Some data) c)) = Active)
    \<and> distinct [4401, 4403, 4400 :: nat]"
proof -
  have c: "c = connection_opened\<lparr>clock := sum_list ds\<rparr>"
    using only_time_before_deadline [of connection_opened ds tok] assms
    by (simp add: connection_opened_def)
  have timeout: "5000 \<le> sum_list ts \<longrightarrow>
            close_calls (conn_run tok (map Elapse ts) connection_opened)
              = [(4401, ''Authentication timeout'')]
            \<and> conn_state (conn_run tok (map Elapse ts) connection_opened) = Closed"
  proof
    assume late: "5000 \<le> sum_list ts"
    have "close_calls (conn_run tok (map Elapse ts) connection_opened)
          = close_calls connection_opened @ [(4401, ''Authentication timeout'')]"
      using late by (intro only_time_past_deadline) (simp_all add: connection_opened_def)
    then have "close_calls (conn_run tok (map Elapse ts) connection_opened)
          = [(4401, ''Authentication timeout'')]"
      by (simp add: connection_opened_def)
    then show "close_calls (conn_run tok (map Elapse ts) connection_opened)
              = [(4401, ''Authentication timeout'')]
            \<and> conn_state (conn_run tok (map Elapse ts) connection_opened) = Closed"
      by (simp add: conn_state_def)
  qed
  have waiting: "conn_state c = AwaitingAuth"
    by (simp add: c conn_state_def connection_opened_def)
  have malformed: "close_calls (message tok None c) = [(4400, ''Invalid message format'')]"
    "close_calls (message tok (Some JNull) c) = [(4400, ''Invalid message format'')]"
    by (simp_all add: c message_def ws_close_def connection_opened_def)
  have invalid: "data \<noteq> JNull \<and> authToken data \<noteq> Inr (Some (JString tok)) \<longrightarrow>
          close_calls (message tok (Some data) c) = [(4403, ''Invalid auth token'')]"
  proof
    assume bad: "data \<noteq> JNull \<and> authToken data \<noteq> Inr (Some (JString tok))"
    then obtain v where v: "authToken data = Inr v"
      using authToken_not_null by blast
    then have "v \<noteq> Some (JString tok)"
      using bad by simp
    then show "close_calls (message tok (Some data) c) = [(4403, ''Invalid auth token'')]"
      by (simp add: c v message_def ws_close_def connection_opened_def)
  qed
  have valid: "authToken data = Inr (Some (JString tok)) \<longrightarrow>
          conn_state (message tok (Some data) c) = Active
          \<and> conn_state (conn_run tok later (message tok (Some data) c)) = Active"
  proof
    assume good: "authToken data = Inr (Some (JString tok))"
    let ?c1 = "message tok (Some data) c"
    have auth: "authenticated ?c1" and heard: "\<not> once_message ?c1"
      and open1: "close_calls ?c1 = []"
      by (simp_all add: c good message_def connection_opened_def)
    have "close_calls (conn_run tok later ?c1) = [] \<and> authenticated (conn_run tok later ?c1)"
      using active_stays_open [OF auth heard, of tok later] open1 by simp
    then show "conn_state ?c1 = Active \<and> conn_state (conn_run tok later ?c1) = Active"
      using auth open1 by (simp add: conn_state_def)
  qed
  show ?thesis
    using timeout waiting malformed invalid valid by simp
qed

theorem handshake_outcomes_witness:
  "sum_list [1000, 2000 :: nat] < 5000
   \<and> close_calls (conn_run ''s3cret'' (map Elapse [2500, 2500]) connection_opened)
       = [(4401, ''Authentication timeout'')]
   \<and> close_calls (message ''s3cret'' (Some (JObject [(''authToken'', JString ''guess'')]))
        (conn_run ''s3cret'' (map Elapse [1000, 2000]) connection_opened))
       = [(4403, ''Invalid auth token'')]
   \<and> conn_state (conn_run ''s3cret'' [Elapse 9000, Message None]
        (message ''s3cret'' (Some (JObject [(''authToken'', JString ''s3cret'')]))
          (conn_run ''s3cret'' (map Elapse [1000, 2000]) connection_opened)))
       = Active"
proof -
  have early: "sum_list [1000, 2000 :: nat] < 5000"
    by simp
  have late: "5000 \<le> sum_list [2500, 2500 :: nat]"
    by simp
  have bad: "JObject [(''authToken'', JString ''guess'')] \<noteq> JNull
      \<and> authToken (JObject [(''authToken'', JString ''guess'')]) \<noteq> Inr (Some (JString ''s3cret''))"
    by simp
  have good: "authToken (JObject [(''authToken'', JString ''s3cret'')]) = Inr (Some (JString ''s3cret''))"
    by simp
  note wrong = handshake_outcomes
    [OF early refl, where tok = "''s3cret''" and ts = "[2500, 2500]"
       and data = "JObject [(''authToken'', JString ''guess'')]"]
  note right = handshake_outcomes
    [OF early refl, where tok = "''s3cret''"
       and data = "JObject [(''authToken'', JString ''s3cret'')]"
       and later = "[Elapse 9000, Message None]"]
  show ?thesis
    using early late bad good wrong right by blast
qed

section \<open>The deadline timer\<close>

lemma handshake_inv_step:
  assumes "handshake_inv c"
  shows "handshake_inv (conn_step tok e c)"
proof (cases e)
  case (Elapse d)
  then show ?thesis
    using assms
    by (simp add: handshake_inv_def elapse_def authTimeout_def ws_close_def)
next
  case (Message m)
  then show ?thesis
    using assms
    by (auto simp add: handshake_inv_def message_def ws_close_def Let_def
          split: option.splits sum.splits if_splits)
qed

lemma handshake_inv_run:
  assumes "handshake_inv c"
  shows "handshake_inv (conn_run tok es c)"
  using assms
  by (induction es arbitrary: c) (simp_all add: handshake_inv_step del: conn_step.simps)

lemma elapse_keeps_handshake:
  "authenticated (elapse d c) = authenticated c
   \<and> once_message (elapse d c) = once_message c
   \<and> clearTimeout_calls (elapse d c) = clearTimeout_calls c"
  by (simp add: elapse_def authTimeout_def ws_close_def)

lemma message_handshake:
  assumes "once_message c" and "\<not> authenticated c"
  shows "authenticated (message tok m c) = carries_token tok m
    \<and> \<not> once_message (message tok m c)
    \<and> clearTimeout_calls (message tok m c)
        = clearTimeout_calls c + (if carries_token tok m then 1 else 0)"
proof (cases m)
  case None
  then show ?thesis
    using assms by (simp add: message_def carries_token_def ws_close_def)
next
  case (Some data)
  show ?thesis
  proof (cases "authToken data")
    case (Inl e)
    then show ?thesis
      using assms Some by (simp add: message_def carries_token_def ws_close_def)
  next
    case (Inr v)
    then show ?thesis
      using assms Some by (simp add: message_def carries_token_def ws_close_def)
  qed
qed

lemma message_unheard:
  assumes "\<not> once_message c"
  shows "message tok m c = c"
  using assms by (simp add: message_def)

lemma heard_frozen:
  assumes "\<not> once_message c"
  shows "authenticated (conn_run tok es c) = authenticated c"
  using assms
proof (induction es arbitrary: c)
  case Nil
  then show ?case by simp
next
  case (Cons e es)
  show ?case
  proof (cases e)
    case (Elapse d)
    have "\<not> once_message (elapse d c)"
      using Cons.prems by (simp add: elapse_keeps_handshake)
    then have "authenticated (conn_run tok es (elapse d c)) = authenticated (elapse d c)"
      by (rule Cons.IH)
    then show ?thesis
      using Elapse by (simp add: elapse_keeps_handshake)
  next
    case (Message m)
    then show ?thesis
      using Cons.IH [OF Cons.prems] Cons.prems by (simp add: message_unheard)
  qed
qed

lemma awaiting_run:
  assumes "once_message c" and "\<not> authenticated c"
  shows "authenticated (conn_run tok es c) = token_presented tok es"
  using assms
proof (induction es arbitrary: c)
  case Nil
  then show ?case by (simp add: token_presented_def)
next
  case (Cons e es)
  show ?case
  proof (cases e)
    case (Elapse d)
    have "once_message (elapse d c)" and "\<not> authenticated (elapse d c)"
      using Cons.prems by (simp_all add: elapse_keeps_handshake)
    then have "authenticated (conn_run tok es (elapse d c)) = token_presented tok es"
      by (rule Cons.IH)
    then show ?thesis
      using Elapse by (simp add: token_presented_def)
  next
    case (Message m)
    have heard: "\<not> once_message (message tok m c)"
      and now: "authenticated (message tok m c) = carries_token tok m"
      using message_handshake [OF Cons.prems, of tok m] by simp_all
    have "authenticated (conn_run tok es (message tok m c)) = carries_token tok m"
      using heard_frozen [OF heard, of tok es] now by simp
    then show ?thesis
      using Message by (simp add: token_presented_def)
  qed
qed

text \<open>
  C9, as the claim states it, fails on the two failure outcomes: after a first message with
  a wrong token the connection is closed (4403) but \<^verbatim>\<open>clearTimeout\<close> has not been called and
  the timer is still pending; when its 5000 ms are over it fires and calls \<^verbatim>\<open>ws.close\<close> again
  (4401) on the connection that has left the awaiting state.
\<close>

theorem timer_left_pending_after_rejection:
  "conn_state (message ''s3cret'' (Some (JObject [(''authToken'', JString ''guess'')]))
      connection_opened) = Closed
   \<and> timer_pending (message ''s3cret'' (Some (JObject [(''authToken'', JString ''guess'')]))
      connection_opened)
   \<and> clearTimeout_calls (message ''s3cret'' (Some (JObject [(''authToken'', JString ''guess'')]))
      connection_opened) = 0
   \<and> close_calls (elapse 5000
        (message ''s3cret'' (Some (JObject [(''authToken'', JString ''guess'')]))
           connection_opened))
      = [(4403, ''Invalid auth token''), (4401, ''Authentication timeout'')]"
  by (simp add: message_def elapse_def authTimeout_def ws_close_def conn_state_def
        connection_opened_def)

text \<open>
  C9, amended: in every course of events on a connection \<^verbatim>\<open>clearTimeout\<close> is called at most
  once, and it has been called exactly when the first message of the connection carried
  the matching token, which is exactly when the connection is authenticated. The passing
  of time never calls it; a message calls it only if it is the first one and carries the
  token. From then on the timer is not pending, and neither the passing of time nor any
  message makes the handler close the connection.
\<close>

theorem timer_cancelled_on_authentication:
  assumes "c = conn_run tok es connection_opened"
  shows "clearTimeout_calls c \<le> 1
    \<and> (clearTimeout_calls c = 1) = token_presented tok es
    \<and> authenticated c = token_presented tok es
    \<and> clearTimeout_calls (elapse d c) = clearTimeout_calls c
    \<and> clearTimeout_calls (message tok m c)
        = clearTimeout_calls c
          + (if once_message c \<and> \<not> authenticated c \<and> carries_token tok m then 1 else 0)
    \<and> (authenticated c \<longrightarrow> \<not> timer_pending c)
    \<and> (authenticated c \<longrightarrow> close_calls (conn_run tok later c) = close_calls c)"
proof -
  have "handshake_inv connection_opened"
    by (simp add: handshake_inv_def connection_opened_def)
  then have inv: "handshake_inv c"
    by (simp add: assms handshake_inv_run)
  have presented: "authenticated c = token_presented tok es"
    unfolding assms by (rule awaiting_run) (simp_all add: connection_opened_def)
  have idle: "clearTimeout_calls (elapse d c) = clearTimeout_calls c"
    by (simp add: elapse_keeps_handshake)
  have on_message: "clearTimeout_calls (message tok m c)
        = clearTimeout_calls c
          + (if once_message c \<and> \<not> authenticated c \<and> carries_token tok m then 1 else 0)"
  proof (cases "once_message c")
    case True
    then have "\<not> authenticated c"
      using inv by (auto simp add: handshake_inv_def split: if_splits)
    then show ?thesis
      using True message_handshake [of c tok m] by simp
  next
    case False
    then show ?thesis
      by (simp add: message_unheard)
  qed
  have count: "clearTimeout_calls c \<le> 1" "(clearTimeout_calls c = 1) = authenticated c"
    using inv by (simp_all add: handshake_inv_def split: if_splits)
  have stopped: "authenticated c \<longrightarrow> \<not> timer_pending c"
    using inv by (simp add: handshake_inv_def split: if_splits)
  have kept: "authenticated c \<longrightarrow> close_calls (conn_run tok later c) = close_calls c"
  proof
    assume auth: "authenticated c"
    then have heard: "\<not> once_message c"
      using inv by (simp add: handshake_inv_def)
    show "close_calls (conn_run tok later c) = close_calls c"
      using active_stays_open [OF auth heard] by simp
  qed
  show ?thesis
    using count presented idle on_message stopped kept by simp
qed

theorem timer_cancelled_on_authentication_witness:
  "token_presented ''s3cret''
      [Elapse 1200, Message (Some (JObject [(''authToken'', JString ''s3cret'')]))]
   \<and> authenticated (conn_run ''s3cret''
      [Elapse 1200, Message (Some (JObject [(''authToken'', JString ''s3cret'')]))]
      connection_opened)
   \<and> clearTimeout_calls (conn_run ''s3cret''
      [Elapse 1200, Message (Some (JObject [(''authToken'', JString ''s3cret'')]))]
      connection_opened) = 1
   \<and> \<not> timer_pending (conn_run ''s3cret''
      [Elapse 1200, Message (Some (JObject [(''authToken'', JString ''s3cret'')]))]
      connection_opened)
   \<and> close_calls (conn_run ''s3cret'' [Elapse 6000]
       (conn_run ''s3cret''
          [Elapse 1200, Message (Some (JObject [(''authToken'', JString ''s3cret'')]))]
          connection_opened)) = []"
proof -
  let ?c = "conn_run ''s3cret''
      [Elapse 1200, Message (Some (JObject [(''authToken'', JString ''s3cret'')]))]
      connection_opened"
  have shown: "token_presented ''s3cret''
      [Elapse 1200, Message (Some (JObject [(''authToken'', JString ''s3cret'')]))]"
    by (simp add: token_presented_def carries_token_def)
  have open1: "close_calls ?c = []"
    by (simp add: elapse_def message_def connection_opened_def)
  note at_input = timer_cancelled_on_authentication
    [OF refl, where tok = "''s3cret''"
       and es = "[Elapse 1200, Message (Some (JObject [(''authToken'', JString ''s3cret'')]))]"
       and later = "[Elapse 6000]"]
  show ?thesis
    using at_input shown open1 by simp
qed

end
